theory Spec2Isabelle
  imports Main "HOL-Library.Word"
begin

unbundle bit_operations_syntax

section \<open>The hash table of hashmap.c\<close>

text \<open>
  The module keeps a fixed array of \<open>NUM_BUCKETS\<close> list heads; colliding keys are chained
  through the \<open>next\<close> pointers of separately allocated entries. Keys and values are
  \<open>char *\<close>: the table stores and compares the pointers, and only \<open>hash\<close> reads the bytes
  a key points to.

  Pointers are natural numbers with \<open>0\<close> for \<open>NULL\<close>. Memory is typed: entries live in a
  store of their own (an address there counts entries, so \<open>h->data + index\<close> is plain
  addition), characters live in a finite byte memory. Dereferencing \<open>NULL\<close> or an address
  that holds no object, and reading bytes outside the byte memory, is the error \<open>Fault\<close>;
  writing past the end of a local buffer is the error \<open>BufferOverflow\<close>.
\<close>

datatype error = Fault | DivByZero | AssertionFailed | BufferOverflow

definition NUM_BUCKETS :: nat where
  "NUM_BUCKETS = 256"

text \<open>
  \<open>struct hashmap_entry\<close>. The fields \<open>value\<close> and \<open>next\<close> of the source are written
  \<open>value'\<close> and \<open>next'\<close>.
\<close>

record hashmap_entry =
  key :: nat
  value' :: nat
  has_entry :: "32 word"
  next' :: nat

text \<open>\<open>struct hashmap\<close>; \<open>data\<close> is the address of the first bucket head.\<close>

record hashmap =
  data :: nat
  num_buckets :: "32 word"
  num_entries :: "32 word"

text \<open>
  The memory the module works on: the struct \<open>*h\<close>, the store of entries, and the
  allocation frontier \<open>brk\<close>. \<open>snew\<close> and \<open>snewn\<close> hand out the addresses from \<open>brk\<close>
  upwards and never fail here (PuTTY's allocator terminates the process when memory runs
  out; that path is not modelled).
\<close>

record memory =
  hmap :: hashmap
  cells :: "nat \<Rightarrow> hashmap_entry option"
  brk :: nat

text \<open>
  What the module takes from its surroundings.

  Modelled from the spec: \<open>crc32_compute\<close> (declared in ssh.h) is not part of the sources;
  the spec asks only for a function from a byte sequence to a 32-bit unsigned integer, so
  it is a parameter here.

  \<open>sizeof_ptr\<close> is \<open>sizeof(char *)\<close> of the platform, \<open>chars\<close> is the byte memory the
  keys point into (the table never writes to it), and \<open>uninit p\<close> is what a freshly
  allocated, not yet initialised entry at address \<open>p\<close> holds (\<open>snew\<close> and \<open>snewn\<close> do
  not clear memory).
\<close>

record env =
  crc32_compute :: "8 word list \<Rightarrow> 32 word"
  sizeof_ptr :: nat
  chars :: "8 word list"
  uninit :: "nat \<Rightarrow> hashmap_entry"

subsection \<open>Hashmap: the constructor\<close>

text \<open>
  \<open>snewn(NUM_BUCKETS, hashmap_entry)\<close> takes \<open>NUM_BUCKETS\<close> consecutive uninitialised
  entries. \<open>memset(h->data, '\0', sizeof(h->data))\<close> clears \<open>sizeof(h->data)\<close> bytes, the
  size of a pointer, from the start of the array: exactly the first field of the first
  entry, the pointer \<open>data[0].key\<close>. The struct itself comes from \<open>snew(hashmap)\<close>; all
  three of its fields are assigned.
\<close>

definition Hashmap :: "env \<Rightarrow> memory \<Rightarrow> memory" where
  "Hashmap e m =
     (let d = brk m;
          arr = (\<lambda>p. if d \<le> p \<and> p < d + NUM_BUCKETS then Some (uninit e p) else cells m p);
          cleared = arr(d \<mapsto> (uninit e d)\<lparr>key := 0\<rparr>)
      in \<lparr>hmap = \<lparr>data = d, num_buckets = of_nat NUM_BUCKETS, num_entries = 0\<rparr>,
          cells = cleared,
          brk = d + NUM_BUCKETS\<rparr>)"

subsection \<open>hash\<close>

text \<open>
  \<open>crc32_compute((void*)(key), sizeof(key))\<close> reads \<open>sizeof(key)\<close> bytes starting at the
  address \<open>key\<close>, whatever the length of the string there, and the result is reduced
  modulo \<open>h->num_buckets\<close>.
\<close>

definition read_bytes :: "8 word list \<Rightarrow> nat \<Rightarrow> nat \<Rightarrow> error + 8 word list" where
  "read_bytes mem p n =
     (if p = 0 \<or> length mem < p + n then Inl Fault else Inr (take n (drop p mem)))"

definition hash :: "env \<Rightarrow> hashmap \<Rightarrow> nat \<Rightarrow> error + nat" where
  "hash e h k =
     (case read_bytes (chars e) k (sizeof_ptr e) of
        Inl err \<Rightarrow> Inl err
      | Inr bytes \<Rightarrow>
          if num_buckets h = 0 then Inl DivByZero
          else Inr (unat (crc32_compute e bytes mod num_buckets h)))"

subsection \<open>hashmap_add\<close>

text \<open>
  The loop \<open>while (cell->next != NULL && key != cell->key) cell = cell->next;\<close>. It need
  not end on a cyclic chain, so its result is an option: \<open>None\<close> is a run that never
  returns.
\<close>

partial_function (option) add_loop ::
  "(nat \<Rightarrow> hashmap_entry option) \<Rightarrow> nat \<Rightarrow> nat \<Rightarrow> (error + nat) option" where
  "add_loop cs k cell =
     (case cs cell of
        None \<Rightarrow> Some (Inl Fault)
      | Some c \<Rightarrow>
          if next' c \<noteq> 0 \<and> k \<noteq> key c then add_loop cs k (next' c)
          else Some (Inr cell))"

text \<open>The three assignments that end \<open>hashmap_add\<close>, on whichever cell was chosen.\<close>

definition store_entry :: "memory \<Rightarrow> nat \<Rightarrow> nat \<Rightarrow> nat \<Rightarrow> (error + memory) option" where
  "store_entry m cell k v =
     (case cells m cell of
        None \<Rightarrow> Some (Inl Fault)
      | Some c \<Rightarrow>
          Some (Inr (m\<lparr>cells := (cells m)(cell \<mapsto> c\<lparr>key := k, value' := v, next' := 0\<rparr>)\<rparr>)))"

text \<open>
  \<open>hashmap_add\<close> is declared to return \<open>unsigned int\<close> but has no \<open>return\<close>
  statement; the model returns the memory only. Nothing in the function assigns to a
  field of \<open>*h\<close>.
\<close>

definition hashmap_add :: "env \<Rightarrow> nat \<Rightarrow> nat \<Rightarrow> memory \<Rightarrow> (error + memory) option" where
  "hashmap_add e k v m =
     (case hash e (hmap m) k of
        Inl err \<Rightarrow> Some (Inl err)
      | Inr index \<Rightarrow>
          let cell = data (hmap m) + index in
          (case cells m cell of
             None \<Rightarrow> Some (Inl Fault)
           | Some c \<Rightarrow>
               if has_entry c = 1 \<and> k \<noteq> key c then
                 (case add_loop (cells m) k cell of
                    None \<Rightarrow> None
                  | Some (Inl err) \<Rightarrow> Some (Inl err)
                  | Some (Inr last_cell) \<Rightarrow>
                      (case cells m last_cell of
                         None \<Rightarrow> Some (Inl Fault)
                       | Some c' \<Rightarrow>
                           if k \<noteq> key c' then
                             let new = brk m;
                                 m' = m\<lparr>cells := (cells m)(last_cell \<mapsto> c'\<lparr>next' := new\<rparr>,
                                                            new \<mapsto> uninit e new),
                                        brk := new + 1\<rparr>
                             in store_entry m' new k v
                           else store_entry m last_cell k v))
               else
                 store_entry (m\<lparr>cells := (cells m)(cell \<mapsto> c\<lparr>has_entry := 1\<rparr>)\<rparr>) cell k v))"

subsection \<open>hashmap_get\<close>

text \<open>
  The loop \<open>while (cell->next != NULL && cell->key != key) cell = cell->next;\<close>, which
  counts its steps in \<open>link_idx\<close> (line 109 defines \<open>HASHMAP_WIN_DEBUG\<close>, so the debug
  code is always compiled in).
\<close>

partial_function (option) get_loop ::
  "(nat \<Rightarrow> hashmap_entry option) \<Rightarrow> nat \<Rightarrow> nat \<Rightarrow> nat \<Rightarrow> (error + nat \<times> nat) option" where
  "get_loop cs k cell link_idx =
     (case cs cell of
        None \<Rightarrow> Some (Inl Fault)
      | Some c \<Rightarrow>
          if next' c \<noteq> 0 \<and> key c \<noteq> k then get_loop cs k (next' c) (link_idx + 1)
          else Some (Inr (cell, link_idx)))"

text \<open>
  The content of a string: the bytes from its address up to the terminating zero byte.
  Reading a string through \<open>NULL\<close>, outside the byte memory, or without a terminating
  zero byte inside it is a fault.
\<close>

definition c_string :: "8 word list \<Rightarrow> nat \<Rightarrow> 8 word list" where
  "c_string mem p = takeWhile (\<lambda>b. b \<noteq> 0) (drop p mem)"

definition read_string :: "8 word list \<Rightarrow> nat \<Rightarrow> error + 8 word list" where
  "read_string mem p =
     (if p \<noteq> 0 \<and> p < length mem \<and> 0 \<in> set (drop p mem) then Inr (c_string mem p)
      else Inl Fault)"

definition bytes_of :: "string \<Rightarrow> 8 word list" where
  "bytes_of s = map of_char s"

text \<open>
  What \<open>%d\<close> prints for a number that is not negative (\<open>index\<close> is below the bucket
  count and \<open>link_idx\<close> counts the entries of one chain, both far below \<open>2^31\<close>).
\<close>

fun decimal :: "nat \<Rightarrow> 8 word list" where
  "decimal n = (if n < 10 then [of_nat (48 + n)] else decimal (n div 10) @ [of_nat (48 + n mod 10)])"

text \<open>
  \<open>sprintf(info, "%d-%d: '%s'->'%s'", index, link_idx, cell->key, cell->value)\<close> into
  \<open>char info[256]\<close>: the text and its terminating zero byte must fit into 256 bytes
  (byte 39 is the apostrophe).
\<close>

definition sprintf_info :: "env \<Rightarrow> nat \<Rightarrow> nat \<Rightarrow> nat \<Rightarrow> nat \<Rightarrow> error + 8 word list" where
  "sprintf_info e index link_idx k v =
     (case read_string (chars e) k of
        Inl err \<Rightarrow> Inl err
      | Inr ks \<Rightarrow>
          (case read_string (chars e) v of
             Inl err \<Rightarrow> Inl err
           | Inr vs \<Rightarrow>
               let info = decimal index @ bytes_of ''-'' @ decimal link_idx @ bytes_of '': '' @ [39]
                            @ ks @ [39] @ bytes_of ''->'' @ [39] @ vs @ [39]
               in if length info < 256 then Inr info else Inl BufferOverflow))"

text \<open>
  \<open>assert(cell->key == key)\<close> ends the process when it fails: the error
  \<open>AssertionFailed\<close> (the file includes assert.h and does not define \<open>NDEBUG\<close>, so the
  assertion is compiled in). After it the debug code formats \<open>info\<close> and shows it with
  \<open>MessageBox\<close>, which returns once the box is dismissed and touches no memory of the
  table. The function contains no assignment to the table; it is modelled in the same
  state-passing form as \<open>hashmap_add\<close> and returns the value together with the memory
  it leaves.
\<close>

definition hashmap_get :: "env \<Rightarrow> nat \<Rightarrow> memory \<Rightarrow> (error + nat \<times> memory) option" where
  "hashmap_get e k m =
     (case hash e (hmap m) k of
        Inl err \<Rightarrow> Some (Inl err)
      | Inr index \<Rightarrow>
          (case get_loop (cells m) k (data (hmap m) + index) 0 of
             None \<Rightarrow> None
           | Some (Inl err) \<Rightarrow> Some (Inl err)
           | Some (Inr (cell, link_idx)) \<Rightarrow>
               (case cells m cell of
                  None \<Rightarrow> Some (Inl Fault)
                | Some c \<Rightarrow>
                    if key c = k then
                      (case sprintf_info e index link_idx (key c) (value' c) of
                         Inl err \<Rightarrow> Some (Inl err)
                       | Inr info \<Rightarrow> Some (Inr (value' c, m)))
                    else Some (Inl AssertionFailed))))"

subsection \<open>Running calls in sequence\<close>

text \<open>
  A caller's sequence of calls stops at the first error, and does not return when one
  of the calls does not.
\<close>

definition and_then ::
  "(error + 'a) option \<Rightarrow> ('a \<Rightarrow> (error + 'b) option) \<Rightarrow> (error + 'b) option" where
  "and_then r f = (case r of None \<Rightarrow> None | Some (Inl err) \<Rightarrow> Some (Inl err) | Some (Inr x) \<Rightarrow> f x)"

definition observe :: "('a \<Rightarrow> 'b) \<Rightarrow> (error + 'a) option \<Rightarrow> (error + 'b) option" where
  "observe f r = map_option (map_sum id f) r"

fun add_all :: "env \<Rightarrow> (nat \<times> nat) list \<Rightarrow> memory \<Rightarrow> (error + memory) option" where
  "add_all e [] m = Some (Inr m)"
| "add_all e ((k, v) # kvs) m = and_then (hashmap_add e k v m) (add_all e kvs)"

subsection \<open>A concrete environment\<close>

text \<open>
  Modelled from the spec: where a concrete run needs a hash function, FNV-1a stands for
  the absent \<open>crc32_compute\<close> (section 6 of the spec names FNV-1a among the functions that
  satisfy the contract of \<open>hash_bytes\<close>).
\<close>

definition fnv1a :: "8 word list \<Rightarrow> 32 word" where
  "fnv1a bs = fold (\<lambda>b h. (h XOR ucast b) * 16777619) bs 2166136261"

text \<open>
  A byte memory holding, from address 1 on, the zero-terminated strings
  \<open>hostname\<close> (1), \<open>hostname\<close> (10), \<open>example.com\<close> (19), \<open>example.org\<close> (31),
  \<open>port\<close> (43), \<open>22\<close> (48), \<open>port\<close> (51), \<open>2222\<close> (56), \<open>hostnames\<close> (61) and
  \<open>username\<close> (71).
\<close>

definition demo_chars :: "8 word list" where
  "demo_chars = [0] @ bytes_of ''hostname'' @ [0] @ bytes_of ''hostname'' @ [0]
     @ bytes_of ''example.com'' @ [0] @ bytes_of ''example.org'' @ [0]
     @ bytes_of ''port'' @ [0] @ bytes_of ''22'' @ [0]
     @ bytes_of ''port'' @ [0] @ bytes_of ''2222'' @ [0]
     @ bytes_of ''hostnames'' @ [0] @ bytes_of ''username'' @ [0] @ replicate 8 0"

definition zero_entry :: hashmap_entry where
  "zero_entry = \<lparr>key = 0, value' = 0, has_entry = 0, next' = 0\<rparr>"

text \<open>An allocator that happens to hand out zero-filled memory, on a 64-bit platform.\<close>

definition demo_env :: env where
  "demo_env = \<lparr>crc32_compute = fnv1a, sizeof_ptr = 8, chars = demo_chars,
                uninit = (\<lambda>p. zero_entry)\<rparr>"

text \<open>
  An allocator that hands out a recycled block: every entry still holds what an earlier
  table left there.
\<close>

definition stale_entry :: hashmap_entry where
  "stale_entry = \<lparr>key = 1, value' = 19, has_entry = 1, next' = 900\<rparr>"

definition stale_env :: env where
  "stale_env = \<lparr>crc32_compute = fnv1a, sizeof_ptr = 8, chars = demo_chars,
                 uninit = (\<lambda>p. stale_entry)\<rparr>"

text \<open>
  An allocator that hands out the block of an earlier table that was created on
  zero-filled memory, held \<open>hostnames\<close> (in bucket 108, address 109) and was freed.
\<close>

definition recycled_env :: env where
  "recycled_env = \<lparr>crc32_compute = fnv1a, sizeof_ptr = 8, chars = demo_chars,
      uninit = (\<lambda>p. if p = 109 then \<lparr>key = 61, value' = 31, has_entry = 1, next' = 0\<rparr>
                     else zero_entry)\<rparr>"

text \<open>
  A byte memory holding \<open>hostname\<close> (1) and a string of 300 letters \<open>a\<close> (10), with a
  zero-filling allocator.
\<close>

definition long_chars :: "8 word list" where
  "long_chars = [0] @ bytes_of ''hostname'' @ [0] @ replicate 300 97 @ [0] @ replicate 8 0"

definition long_env :: env where
  "long_env = \<lparr>crc32_compute = fnv1a, sizeof_ptr = 8, chars = long_chars,
                uninit = (\<lambda>p. zero_entry)\<rparr>"

text \<open>The memory before the table is created: nothing allocated, address 0 is \<open>NULL\<close>.\<close>

definition start :: memory where
  "start = \<lparr>hmap = \<lparr>data = 0, num_buckets = 0, num_entries = 0\<rparr>,
            cells = (\<lambda>p. None), brk = 1\<rparr>"

section \<open>Well-formed tables\<close>

text \<open>
  The vocabulary of the proofs. \<open>chain cs p ns\<close>: following the \<open>next\<close> pointers from
  \<open>p\<close> visits exactly the addresses \<open>ns\<close> and then reaches \<open>NULL\<close>.
\<close>

primrec chain :: "(nat \<Rightarrow> hashmap_entry option) \<Rightarrow> nat \<Rightarrow> nat list \<Rightarrow> bool" where
  "chain cs p [] = (p = 0)"
| "chain cs p (q # qs) = (p = q \<and> p \<noteq> 0 \<and> (\<exists>c. cs p = Some c \<and> chain cs (next' c) qs))"

definition key_at :: "(nat \<Rightarrow> hashmap_entry option) \<Rightarrow> nat \<Rightarrow> nat" where
  "key_at cs p = (case cs p of None \<Rightarrow> 0 | Some c \<Rightarrow> key c)"

definition entry_at :: "(nat \<Rightarrow> hashmap_entry option) \<Rightarrow> nat \<Rightarrow> nat \<times> nat" where
  "entry_at cs p = (case cs p of None \<Rightarrow> (0, 0) | Some c \<Rightarrow> (key c, value' c))"

text \<open>The address of bucket head \<open>i\<close>, \<open>h->data + i\<close>.\<close>

definition slot :: "memory \<Rightarrow> nat \<Rightarrow> nat" where
  "slot m i = data (hmap m) + i"

text \<open>
  A table is well formed when there are node lists \<open>ns i\<close>, one per bucket, such that
  every head starts a chain through its nodes, the nodes were allocated after the bucket
  array and below the frontier, a head that is not flagged holds no key and no
  successor, and different buckets share no node.
\<close>

definition wf_with :: "memory \<Rightarrow> (nat \<Rightarrow> nat list) \<Rightarrow> bool" where
  "wf_with m ns \<longleftrightarrow>
     num_buckets (hmap m) = 256 \<and> 0 < data (hmap m) \<and> data (hmap m) + NUM_BUCKETS \<le> brk m \<and>
     (\<forall>i<NUM_BUCKETS.
        chain (cells m) (slot m i) (slot m i # ns i)
        \<and> set (ns i) \<subseteq> {data (hmap m) + NUM_BUCKETS ..< brk m}
        \<and> (\<forall>c. cells m (slot m i) = Some c \<longrightarrow> has_entry c \<noteq> 1 \<longrightarrow> key c = 0 \<and> next' c = 0)
        \<and> (\<forall>j<NUM_BUCKETS. j \<noteq> i \<longrightarrow> set (ns i) \<inter> set (ns j) = {}))"

definition wf :: "memory \<Rightarrow> bool" where
  "wf m \<longleftrightarrow> (\<exists>ns. wf_with m ns)"

text \<open>
  \<open>bucket m i es\<close>: bucket \<open>i\<close> holds the (key, value) pairs \<open>es\<close>, in chain order; a
  head that is not flagged holds none.
\<close>

definition bucket :: "memory \<Rightarrow> nat \<Rightarrow> (nat \<times> nat) list \<Rightarrow> bool" where
  "bucket m i es \<longleftrightarrow>
     (\<exists>c ns. cells m (slot m i) = Some c \<and> chain (cells m) (slot m i) ns
        \<and> es = (if has_entry c = 1 then map (entry_at (cells m)) ns else []))"


text \<open>
  A key pointer is readable when it is not \<open>NULL\<close> and the \<open>sizeof(char *)\<close> bytes that
  \<open>hash\<close> reads lie inside the byte memory.
\<close>

definition readable :: "env \<Rightarrow> nat \<Rightarrow> bool" where
  "readable e k \<longleftrightarrow> k \<noteq> 0 \<and> k + sizeof_ptr e \<le> length (chars e)"

section \<open>Evaluation rules\<close>

lemmas demo_defs =
  demo_env_def stale_env_def recycled_env_def demo_chars_def bytes_of_def fnv1a_def
  zero_entry_def stale_entry_def start_def

lemmas run_defs =
  Hashmap_def NUM_BUCKETS_def hash_def read_bytes_def hashmap_add_def hashmap_get_def
  store_entry_def and_then_def observe_def Let_def sprintf_info_def read_string_def
  c_string_def

lemmas loop_simps = add_loop.simps get_loop.simps

section \<open>The constructor\<close>

lemma Hashmap_hmap:
  "hmap (Hashmap e m) = \<lparr>data = brk m, num_buckets = 256, num_entries = 0\<rparr>"
  by (simp add: Hashmap_def NUM_BUCKETS_def Let_def)

lemma Hashmap_first_key:
  "cells (Hashmap e m) (brk m) = Some ((uninit e (brk m))\<lparr>key := 0\<rparr>)"
  by (simp add: Hashmap_def Let_def)

lemma Hashmap_other_slots:
  "brk m < p \<Longrightarrow> p < brk m + 256 \<Longrightarrow> cells (Hashmap e m) p = Some (uninit e p)"
  by (simp add: Hashmap_def NUM_BUCKETS_def Let_def)

text \<open>
  Claim C8: \<open>create()\<close> returns a map whose 256 slots are all marked empty, without a
  chain successor, and whose entry count is 0. The code clears only \<open>data[0].key\<close>: when
  the allocator hands out a recycled block, slot 1 (address 2) is still flagged as
  holding an entry and still has a successor, while the entry count is 0.
\<close>

theorem Hashmap_slots_not_cleared:
  "cells (Hashmap stale_env start) 2
     = Some \<lparr>key = 1, value' = 19, has_entry = 1, next' = 900\<rparr>
   \<and> cells (Hashmap stale_env start) 1
     = Some \<lparr>key = 0, value' = 19, has_entry = 1, next' = 900\<rparr>
   \<and> hmap (Hashmap stale_env start) = \<lparr>data = 1, num_buckets = 256, num_entries = 0\<rparr>"
  by (simp add: Hashmap_def NUM_BUCKETS_def Let_def demo_defs)

section \<open>The entry count\<close>

lemma store_entry_hmap:
  "store_entry m cell k v = Some (Inr m') \<Longrightarrow> hmap m' = hmap m"
  by (auto simp: store_entry_def split: option.splits)

lemma hashmap_add_hmap:
  "hashmap_add e k v m = Some (Inr m') \<Longrightarrow> hmap m' = hmap m"
  unfolding hashmap_add_def Let_def
  by (auto split: sum.splits option.splits if_splits dest!: store_entry_hmap)

text \<open>
  Claim C5: \<open>insert\<close> increments the entry count by one when it creates a new entry.
  The code never assigns \<open>num_entries\<close> outside the constructor: after the first insert
  into a fresh table the new entry is in bucket 108 (address 109) and the count is
  still 0.
\<close>

theorem hashmap_add_count_stays_zero:
  "observe (\<lambda>m. (num_entries (hmap m), cells m 109))
     (hashmap_add demo_env 1 19 (Hashmap demo_env start))
   = Some (Inr (0, Some \<lparr>key = 1, value' = 19, has_entry = 1, next' = 0\<rparr>))"
  by (simp add: run_defs demo_defs)

section \<open>Lookup does not write\<close>

text \<open>
  Claim C10: \<open>get\<close> is a pure observation. Whenever \<open>hashmap_get\<close> returns a value, the
  memory it leaves (the struct, every entry with its key, value, flag and successor,
  and the allocation frontier) is the memory it was called on.
\<close>

theorem hashmap_get_frame:
  "hashmap_get e k m = Some (Inr (v, m')) \<Longrightarrow> m' = m"
  unfolding hashmap_get_def
  by (auto split: sum.splits option.splits if_splits)

theorem hashmap_get_frame_witness:
  "\<exists>m. hashmap_add demo_env 1 19 (Hashmap demo_env start) = Some (Inr m)
      \<and> hashmap_get demo_env 1 m = Some (Inr (19, m))"
proof -
  obtain m where a: "hashmap_add demo_env 1 19 (Hashmap demo_env start) = Some (Inr m)"
    and c: "cells m 109 = Some \<lparr>key = 1, value' = 19, has_entry = 1, next' = 0\<rparr>"
    and h: "hmap m = \<lparr>data = 1, num_buckets = 256, num_entries = 0\<rparr>"
    by (simp add: run_defs demo_defs)
  obtain v m' where r: "hashmap_get demo_env 1 m = Some (Inr (v, m'))" and v: "v = 19"
    by (simp add: run_defs demo_defs loop_simps c h)
  from hashmap_get_frame [OF r] a r v show ?thesis by simp
qed

section \<open>The debug message\<close>

text \<open>
  For the key \<open>hostname\<close> found at the head of bucket 108 with the value
  \<open>example.com\<close>, the message fits the buffer; with a value of 300 characters the
  \<open>sprintf\<close> overruns \<open>info\<close> and \<open>get\<close> does not return the value.
\<close>

lemma sprintf_info_demo:
  "sprintf_info demo_env 108 0 1 19
     = Inr (bytes_of ''108-0: '' @ [39] @ bytes_of ''hostname'' @ [39] @ bytes_of ''->''
            @ [39] @ bytes_of ''example.com'' @ [39])"
  by (simp add: run_defs demo_defs)

lemma takeWhile_replicate_97:
  "takeWhile (\<lambda>b. b \<noteq> (0::8 word)) (replicate n 97 @ 0 # ys) = replicate n 97"
  by (induction n) auto

lemma get_long_value_overflows:
  "observe fst (and_then (hashmap_add long_env 1 10 (Hashmap long_env start))
                  (hashmap_get long_env 1))
     = Some (Inl BufferOverflow)"
  by (simp add: run_defs demo_defs loop_simps long_env_def long_chars_def takeWhile_replicate_97)

section \<open>Chains\<close>

lemma chain_unique: "chain cs p ns \<Longrightarrow> chain cs p ns' \<Longrightarrow> ns = ns'"
proof (induction ns arbitrary: p ns')
  case Nil
  then show ?case by (cases ns') auto
next
  case (Cons q qs)
  then show ?case by (cases ns') auto
qed

lemma chain_suffix: "chain cs p (xs @ q # ys) \<Longrightarrow> chain cs q (q # ys)"
  by (induction xs arbitrary: p) auto

lemma chain_head_notin_tail:
  assumes "chain cs p (p # qs)"
  shows "p \<notin> set qs"
proof
  assume "p \<in> set qs"
  then obtain xs ys where qs: "qs = xs @ p # ys"
    by (auto simp: in_set_conv_decomp)
  with assms have "chain cs p ((p # xs) @ p # ys)" by simp
  then have "chain cs p (p # ys)" by (rule chain_suffix)
  with assms have "p # qs = p # ys" by (rule chain_unique)
  with qs show False by simp
qed

lemma chain_distinct: "chain cs p ns \<Longrightarrow> distinct ns"
proof (induction ns arbitrary: p)
  case Nil
  then show ?case by simp
next
  case (Cons q qs)
  then have "q \<notin> set qs" using chain_head_notin_tail [of cs q qs] by auto
  with Cons show ?case by auto
qed

lemma chain_cut:
  assumes "chain cs p (xs @ q # ys)" and "cs q = Some c"
  shows "chain (cs(q \<mapsto> c\<lparr>key := k, value' := v, next' := 0\<rparr>)) p (xs @ [q])"
proof -
  from assms(1) have "distinct (xs @ q # ys)" by (rule chain_distinct)
  then have "q \<notin> set xs" by auto
  with assms show ?thesis
    by (induction xs arbitrary: p) auto
qed

lemma chain_last_next:
  "chain cs p (xs @ [q]) \<Longrightarrow> \<exists>c. cs q = Some c \<and> next' c = 0"
  by (induction xs arbitrary: p) auto

lemma chain_snoc:
  assumes "chain cs p (xs @ [q])" and "cs q = Some c" and "n \<notin> set (xs @ [q])" and "n \<noteq> 0"
  shows "chain (cs(q \<mapsto> c\<lparr>next' := n\<rparr>, n \<mapsto> u\<lparr>key := k, value' := v, next' := 0\<rparr>)) p (xs @ [q, n])"
proof -
  from assms(1) have "distinct (xs @ [q])" by (rule chain_distinct)
  then have "q \<notin> set xs" by auto
  with assms show ?thesis
    by (induction xs arbitrary: p) auto
qed

lemma add_loop_chain:
  "chain cs p ns \<Longrightarrow> ns \<noteq> [] \<Longrightarrow>
   \<exists>xs q ys. ns = xs @ q # ys \<and> add_loop cs k p = Some (Inr q)
      \<and> (\<forall>x\<in>set xs. key_at cs x \<noteq> k) \<and> (ys \<noteq> [] \<longrightarrow> key_at cs q = k)"
proof (induction ns arbitrary: p)
  case Nil
  then show ?case by simp
next
  case (Cons a ns)
  then obtain c where p: "p = a" "a \<noteq> 0" and c: "cs a = Some c" and ch: "chain cs (next' c) ns"
    by auto
  show ?case
  proof (cases "next' c \<noteq> 0 \<and> k \<noteq> key c")
    case True
    with ch have "ns \<noteq> []" by (cases ns) auto
    from Cons.IH [OF ch this] obtain xs q ys where
      *: "ns = xs @ q # ys" "add_loop cs k (next' c) = Some (Inr q)"
         "\<forall>x\<in>set xs. key_at cs x \<noteq> k" "ys \<noteq> [] \<longrightarrow> key_at cs q = k"
      by blast
    have "add_loop cs k p = Some (Inr q)"
      using True c p *(2) by (subst add_loop.simps) simp
    moreover have "a # ns = (a # xs) @ q # ys" using *(1) by simp
    moreover have "\<forall>x\<in>set (a # xs). key_at cs x \<noteq> k"
      using *(3) True c by (auto simp: key_at_def)
    ultimately show ?thesis using *(4) p by blast
  next
    case False
    have l: "add_loop cs k p = Some (Inr a)"
      using False c p by (subst add_loop.simps) auto
    have "ns \<noteq> [] \<longrightarrow> key_at cs a = k"
      using False ch c by (cases ns) (auto simp: key_at_def)
    with l show ?thesis by (intro exI [of _ "[]"] exI [of _ a] exI [of _ ns]) simp
  qed
qed

lemma get_loop_add_loop:
  "chain cs p ns \<Longrightarrow> p \<noteq> 0 \<Longrightarrow> add_loop cs k p = Some (Inr q) \<Longrightarrow>
   \<exists>j. get_loop cs k p n = Some (Inr (q, j))"
proof (induction ns arbitrary: p n)
  case Nil
  then show ?case by simp
next
  case (Cons a ns)
  then obtain c where c: "cs p = Some c" and ch: "chain cs (next' c) ns" by auto
  show ?case
  proof (cases "next' c \<noteq> 0 \<and> k \<noteq> key c")
    case True
    have "add_loop cs k p = add_loop cs k (next' c)"
      using True c by (subst add_loop.simps) simp
    with Cons.prems(3) have "add_loop cs k (next' c) = Some (Inr q)" by simp
    from Cons.IH [OF ch _ this, of "n + 1"] True
    obtain j where "get_loop cs k (next' c) (n + 1) = Some (Inr (q, j))" by blast
    moreover have "get_loop cs k p n = get_loop cs k (next' c) (n + 1)"
      using True c by (subst get_loop.simps) auto
    ultimately show ?thesis by simp
  next
    case False
    have "add_loop cs k p = Some (Inr p)"
      using False c by (subst add_loop.simps) auto
    with Cons.prems(3) have "q = p" by simp
    moreover have "get_loop cs k p n = Some (Inr (p, n))"
      using False c by (subst get_loop.simps) auto
    ultimately show ?thesis by simp
  qed
qed

section \<open>Buckets and the frame of an update\<close>

lemma chain_cong: "\<forall>p\<in>set ns. cs' p = cs p \<Longrightarrow> chain cs' p ns = chain cs p ns"
proof (induction ns arbitrary: p)
  case Nil
  show ?case by simp
next
  case (Cons a ns)
  then have a: "cs' a = cs a" and ih: "\<And>p. chain cs' p ns = chain cs p ns" by simp_all
  show ?case by (cases "p = a") (simp_all add: a ih)
qed

lemma entry_at_cong: "\<forall>p\<in>set ns. cs' p = cs p \<Longrightarrow> map (entry_at cs') ns = map (entry_at cs) ns"
  by (simp add: entry_at_def)

lemma bucket_frame:
  assumes b: "bucket m j es" and ch: "chain (cells m) (slot m j) ns"
    and nz: "slot m j \<noteq> 0"
    and same: "\<forall>p\<in>set ns. cells m' p = cells m p" and h: "hmap m' = hmap m"
  shows "bucket m' j es"
proof -
  from b obtain c ns' where c: "cells m (slot m j) = Some c"
    and ch': "chain (cells m) (slot m j) ns'"
    and es: "es = (if has_entry c = 1 then map (entry_at (cells m)) ns' else [])"
    by (auto simp: bucket_def)
  from ch ch' have eq: "ns' = ns" by (rule chain_unique [symmetric])
  from ch nz have "slot m j \<in> set ns" by (cases ns) auto
  with same c have c': "cells m' (slot m j) = Some c" by simp
  have s: "slot m' j = slot m j" using h by (simp add: slot_def)
  from ch have "chain (cells m') (slot m j) ns" by (simp only: chain_cong [OF same])
  moreover from same have "map (entry_at (cells m')) ns = map (entry_at (cells m)) ns"
    by (rule entry_at_cong)
  ultimately show ?thesis using c' es eq s unfolding bucket_def by auto
qed

lemma hash_Inr:
  assumes "hash e h k = Inr i" and "num_buckets h = 256"
  shows "i < NUM_BUCKETS" and "k \<noteq> 0"
proof -
  from assms obtain w :: "32 word" where i: "i = unat (w mod 256)" and k: "k \<noteq> 0"
    by (auto simp: hash_def read_bytes_def split: sum.splits if_splits)
  have "w mod 256 < 256" by (rule word_mod_less_divisor) simp
  then have "unat (w mod 256) < 256" by (simp add: word_less_nat_alt)
  with i show "i < NUM_BUCKETS" by (simp add: NUM_BUCKETS_def)
  from k show "k \<noteq> 0" .
qed

lemma wf_bucket_ex:
  assumes "wf_with m ns" and "i < NUM_BUCKETS"
  shows "\<exists>es. bucket m i es"
proof -
  from assms have "chain (cells m) (slot m i) (slot m i # ns i)"
    unfolding wf_with_def by blast
  then obtain c where "cells m (slot m i) = Some c" by auto
  with \<open>chain (cells m) (slot m i) (slot m i # ns i)\<close> show ?thesis
    unfolding bucket_def by blast
qed

lemma chain_cell: "chain cs p ns \<Longrightarrow> q \<in> set ns \<Longrightarrow> \<exists>c. cs q = Some c"
  by (induction ns arbitrary: p) auto

lemma entry_at_fst: "fst (entry_at cs p) = key_at cs p"
  by (simp add: entry_at_def key_at_def split: option.splits)

lemma takeWhile_keys_all:
  "\<forall>x\<in>set xs. key_at cs x \<noteq> k \<Longrightarrow>
   takeWhile (\<lambda>x. fst x \<noteq> k) (map (entry_at cs) xs) = map (entry_at cs) xs"
  by (induction xs) (simp_all add: entry_at_fst)

lemma takeWhile_keys_prefix:
  "\<forall>x\<in>set xs. key_at cs x \<noteq> k \<Longrightarrow> key_at cs q = k \<Longrightarrow>
   takeWhile (\<lambda>x. fst x \<noteq> k) (map (entry_at cs) (xs @ q # ys)) = map (entry_at cs) xs"
  by (induction xs) (simp_all add: entry_at_fst)

lemma wf_update:
  assumes wf: "wf_with m ns" and i: "i < NUM_BUCKETS"
    and h: "hmap m' = hmap m" and b: "brk m \<le> brk m'"
    and same: "\<And>p. p \<noteq> slot m i \<Longrightarrow> p \<notin> set (ns i) \<Longrightarrow> p < brk m \<Longrightarrow> cells m' p = cells m p"
    and ch: "chain (cells m') (slot m i) (slot m i # l)"
    and l: "set l \<subseteq> set (ns i) \<union> {brk m ..< brk m'}"
    and flag: "\<And>c. cells m' (slot m i) = Some c \<Longrightarrow> has_entry c = 1"
  shows "wf_with m' (ns(i := l))"
    and "\<And>j es. j < NUM_BUCKETS \<Longrightarrow> j \<noteq> i \<Longrightarrow> bucket m j es \<Longrightarrow> bucket m' j es"
proof -
  let ?d = "data (hmap m)"
  from wf have d: "0 < ?d" "?d + NUM_BUCKETS \<le> brk m" and nb: "num_buckets (hmap m) = 256"
    by (simp_all add: wf_with_def)
  have wfj: "chain (cells m) (slot m j) (slot m j # ns j)"
            "set (ns j) \<subseteq> {?d + NUM_BUCKETS ..< brk m}"
            "\<And>c. cells m (slot m j) = Some c \<Longrightarrow> has_entry c \<noteq> 1 \<Longrightarrow> key c = 0 \<and> next' c = 0"
            "\<And>j'. j' < NUM_BUCKETS \<Longrightarrow> j' \<noteq> j \<Longrightarrow> set (ns j) \<inter> set (ns j') = {}"
    if "j < NUM_BUCKETS" for j
    using wf that unfolding wf_with_def by blast+
  have s: "slot m' j = slot m j" for j using h by (simp add: slot_def)
  have other: "\<forall>p\<in>set (slot m j # ns j). cells m' p = cells m p"
    if j: "j < NUM_BUCKETS" "j \<noteq> i" for j
  proof
    fix p assume p: "p \<in> set (slot m j # ns j)"
    have "p \<noteq> slot m i" using p j i wfj(2) [OF j(1)] by (auto simp: slot_def)
    moreover have "p \<notin> set (ns i)"
      using p j i wfj(2) [OF i] wfj(4) [OF j(1) i] by (auto simp: slot_def)
    moreover have "p < brk m" using p j d wfj(2) [OF j(1)] by (auto simp: slot_def)
    ultimately show "cells m' p = cells m p" by (rule same)
  qed
  have lsub: "set l \<subseteq> {?d + NUM_BUCKETS ..< brk m'}"
  proof
    fix x assume "x \<in> set l"
    with l have "x \<in> set (ns i) \<or> x \<in> {brk m ..< brk m'}" by auto
    then show "x \<in> {?d + NUM_BUCKETS ..< brk m'}"
    proof
      assume "x \<in> set (ns i)"
      with wfj(2) [OF i] have "x \<in> {?d + NUM_BUCKETS ..< brk m}" by auto
      with b show ?thesis by simp
    next
      assume "x \<in> {brk m ..< brk m'}"
      with d show ?thesis by simp
    qed
  qed
  have ldisj: "set l \<inter> set (ns j) = {}" if j: "j < NUM_BUCKETS" "j \<noteq> i" for j
  proof -
    have "x \<notin> set (ns j)" if x: "x \<in> set l" for x
    proof -
      from l x have "x \<in> set (ns i) \<or> x \<in> {brk m ..< brk m'}" by auto
      then show ?thesis
      proof
        assume "x \<in> set (ns i)"
        with wfj(4) [OF i j] show ?thesis by auto
      next
        assume "x \<in> {brk m ..< brk m'}"
        with wfj(2) [OF j(1)] show ?thesis by auto
      qed
    qed
    then show ?thesis by auto
  qed
  show "wf_with m' (ns(i := l))"
    unfolding wf_with_def
  proof (intro conjI allI impI)
    show "num_buckets (hmap m') = 256" using nb h by simp
    show "0 < data (hmap m')" using d h by simp
    show "data (hmap m') + NUM_BUCKETS \<le> brk m'" using d h b by simp
  next
    fix j assume j: "j < NUM_BUCKETS"
    show "chain (cells m') (slot m' j) (slot m' j # (ns(i := l)) j)"
    proof (cases "j = i")
      case True
      with ch s show ?thesis by simp
    next
      case False
      from wfj(1) [OF j] have "chain (cells m') (slot m j) (slot m j # ns j)"
        by (simp only: chain_cong [OF other [OF j False]])
      with False show ?thesis by (simp del: chain.simps add: s)
    qed
    show "set ((ns(i := l)) j) \<subseteq> {data (hmap m') + NUM_BUCKETS ..< brk m'}"
    proof (cases "j = i")
      case True
      with lsub h show ?thesis by simp
    next
      case False
      with wfj(2) [OF j] b h show ?thesis by auto
    qed
  next
    fix j c assume j: "j < NUM_BUCKETS" and c: "cells m' (slot m' j) = Some c"
      and f: "has_entry c \<noteq> 1"
    show "key c = 0" "next' c = 0"
    proof -
      have "key c = 0 \<and> next' c = 0"
      proof (cases "j = i")
        case True
        with c s flag f show ?thesis by auto
      next
        case False
        from other [OF j False] have "cells m' (slot m j) = cells m (slot m j)" by simp
        with c s have "cells m (slot m j) = Some c" by simp
        from wfj(3) [OF j this f] show ?thesis .
      qed
      then show "key c = 0" "next' c = 0" by simp_all
    qed
  next
    fix j j' assume j: "j < NUM_BUCKETS" and j': "j' < NUM_BUCKETS" and ne: "j' \<noteq> j"
    show "set ((ns(i := l)) j) \<inter> set ((ns(i := l)) j') = {}"
    proof (cases "j = i")
      case True
      with ne ldisj [OF j'] show ?thesis by simp
    next
      case False
      show ?thesis
      proof (cases "j' = i")
        case True
        with False ldisj [OF j False] show ?thesis by (simp add: Int_commute)
      next
        case f: False
        with False wfj(4) [OF j j' ne] show ?thesis by simp
      qed
    qed
  qed
  show "bucket m' j es" if j: "j < NUM_BUCKETS" "j \<noteq> i" and bk: "bucket m j es" for j es
  proof (rule bucket_frame [OF bk wfj(1) [OF j(1)] _ other [OF j] h])
    show "slot m j \<noteq> 0" using d by (simp add: slot_def)
  qed
qed

section \<open>What hashmap_add does to a well-formed table\<close>

lemma bucket_unfold:
  assumes wf: "wf_with m ns" and i: "i < NUM_BUCKETS" and b: "bucket m i es"
  obtains c where "cells m (slot m i) = Some c" "chain (cells m) (next' c) (ns i)"
    "es = (if has_entry c = 1 then map (entry_at (cells m)) (slot m i # ns i) else [])"
    "slot m i \<noteq> 0"
proof -
  from wf i have ch: "chain (cells m) (slot m i) (slot m i # ns i)"
    unfolding wf_with_def by blast
  from b obtain c ns' where c: "cells m (slot m i) = Some c"
    and ch': "chain (cells m) (slot m i) ns'"
    and es: "es = (if has_entry c = 1 then map (entry_at (cells m)) ns' else [])"
    by (auto simp: bucket_def)
  from ch' ch have "ns' = slot m i # ns i" by (rule chain_unique)
  with c es ch that show ?thesis by auto
qed

lemma add_first:
  assumes wf: "wf_with m ns" and h: "hash e (hmap m) k = Inr i" and b: "bucket m i es"
    and c: "cells m (slot m i) = Some c" and br: "\<not> (has_entry c = 1 \<and> k \<noteq> key c)"
  shows "\<exists>m'. hashmap_add e k v m = Some (Inr m') \<and> wf m' \<and> hmap m' = hmap m
           \<and> bucket m' i (takeWhile (\<lambda>x. fst x \<noteq> k) es @ [(k, v)])
           \<and> (\<forall>j es'. j < NUM_BUCKETS \<longrightarrow> j \<noteq> i \<longrightarrow> bucket m j es' \<longrightarrow> bucket m' j es')"
proof -
  from wf have nb: "num_buckets (hmap m) = 256" by (simp add: wf_with_def)
  from hash_Inr [OF h nb] have i: "i < NUM_BUCKETS" and k: "k \<noteq> 0" .
  let ?a = "slot m i"
  let ?m' = "m\<lparr>cells := (cells m)(?a \<mapsto> c\<lparr>has_entry := 1, key := k, value' := v, next' := 0\<rparr>)\<rparr>"
  obtain c0 where c0: "cells m ?a = Some c0"
    and es0: "es = (if has_entry c0 = 1 then map (entry_at (cells m)) (?a # ns i) else [])"
    and a0: "?a \<noteq> 0"
    by (rule bucket_unfold [OF wf i b])
  from c0 c have "c0 = c" by simp
  with es0 have es: "es = (if has_entry c = 1 then map (entry_at (cells m)) (?a # ns i) else [])"
    by simp
  have add: "hashmap_add e k v m = Some (Inr ?m')"
    using h c br by (auto simp: hashmap_add_def store_entry_def slot_def Let_def)
  have p1: "hmap ?m' = hmap m" by simp
  have p2: "brk m \<le> brk ?m'" by simp
  have p3: "\<And>p. p \<noteq> ?a \<Longrightarrow> p \<notin> set (ns i) \<Longrightarrow> p < brk m \<Longrightarrow> cells ?m' p = cells m p"
    by simp
  have p4: "chain (cells ?m') ?a (?a # [])" using a0 by simp
  have p5: "set [] \<subseteq> set (ns i) \<union> {brk m ..< brk ?m'}" by simp
  have p6: "\<And>c. cells ?m' ?a = Some c \<Longrightarrow> has_entry c = 1" by auto
  note upd = wf_update [OF wf i p1 p2 p3 p4 p5 p6]
  have u: "wf_with ?m' (ns(i := []))" by (rule upd(1))
  have o: "\<And>j es. j < NUM_BUCKETS \<Longrightarrow> j \<noteq> i \<Longrightarrow> bucket m j es \<Longrightarrow> bucket ?m' j es"
    by (rule upd(2))
  have tw: "takeWhile (\<lambda>x. fst x \<noteq> k) es = []"
    using es br c by (auto simp: entry_at_def)
  have "bucket ?m' i [(k, v)]"
    unfolding bucket_def
    by (rule exI [of _ "c\<lparr>has_entry := 1, key := k, value' := v, next' := 0\<rparr>"],
        rule exI [of _ "[?a]"])
       (use a0 in \<open>simp add: slot_def entry_at_def\<close>)
  with tw have bi: "bucket ?m' i (takeWhile (\<lambda>x. fst x \<noteq> k) es @ [(k, v)])" by simp
  from u have "wf ?m'" unfolding wf_def by blast
  with add p1 bi o show ?thesis by blast
qed

lemma key_at_Some: "cs p = Some c \<Longrightarrow> key_at cs p = key c"
  by (simp add: key_at_def)

lemma add_walk:
  assumes wf: "wf_with m ns" and h: "hash e (hmap m) k = Inr i" and b: "bucket m i es"
    and c: "cells m (slot m i) = Some c" and br: "has_entry c = 1 \<and> k \<noteq> key c"
  shows "\<exists>m'. hashmap_add e k v m = Some (Inr m') \<and> wf m' \<and> hmap m' = hmap m
           \<and> bucket m' i (takeWhile (\<lambda>x. fst x \<noteq> k) es @ [(k, v)])
           \<and> (\<forall>j es'. j < NUM_BUCKETS \<longrightarrow> j \<noteq> i \<longrightarrow> bucket m j es' \<longrightarrow> bucket m' j es')"
proof -
  from wf have nb: "num_buckets (hmap m) = 256" and d: "data (hmap m) + NUM_BUCKETS \<le> brk m"
    by (simp_all add: wf_with_def)
  from hash_Inr [OF h nb] have i: "i < NUM_BUCKETS" and k: "k \<noteq> 0" .
  let ?a = "slot m i" and ?cs = "cells m"
  obtain c0 where c0: "?cs ?a = Some c0"
    and es0: "es = (if has_entry c0 = 1 then map (entry_at ?cs) (?a # ns i) else [])"
    and a0: "?a \<noteq> 0"
    by (rule bucket_unfold [OF wf i b])
  from c0 c have "c0 = c" by simp
  with es0 br have es: "es = map (entry_at ?cs) (?a # ns i)" by simp
  from wf i have ch: "chain ?cs ?a (?a # ns i)" and sub: "set (ns i) \<subseteq> {data (hmap m) + NUM_BUCKETS ..< brk m}"
    unfolding wf_with_def by blast+
  from ch have dist: "distinct (?a # ns i)" by (rule chain_distinct)
  have abrk: "?a < brk m" using i d by (simp add: slot_def)
  from add_loop_chain [OF ch, of k] obtain xs q ys where
    dec: "?a # ns i = xs @ q # ys" and loop: "add_loop ?cs k ?a = Some (Inr q)"
    and xs: "\<forall>x\<in>set xs. key_at ?cs x \<noteq> k" and ys: "ys \<noteq> [] \<longrightarrow> key_at ?cs q = k"
    by blast
  have "q \<in> set (?a # ns i)" using dec by simp
  from chain_cell [OF ch this] obtain c' where c': "?cs q = Some c'" by blast
  have qbrk: "q < brk m" using \<open>q \<in> set (?a # ns i)\<close> abrk sub by auto
  show ?thesis
  proof (cases "k = key c'")
    case True
    let ?m' = "m\<lparr>cells := ?cs(q \<mapsto> c'\<lparr>key := k, value' := v, next' := 0\<rparr>)\<rparr>"
    have add: "hashmap_add e k v m = Some (Inr ?m')"
      using h c br loop c' True by (simp add: hashmap_add_def store_entry_def slot_def Let_def)
    from True br c c' have qa: "q \<noteq> ?a" by auto
    with dec obtain xs' where xs': "xs = ?a # xs'" by (cases xs) auto
    with dec have nsi: "ns i = xs' @ q # ys" by simp
    from dec ch have "chain ?cs ?a (xs @ q # ys)" by simp
    from chain_cut [OF this c', where k = k and v = v]
    have p4: "chain (cells ?m') ?a (?a # (xs' @ [q]))" using xs' by (simp del: chain.simps)
    have p1: "hmap ?m' = hmap m" by simp
    have p2: "brk m \<le> brk ?m'" by simp
    have p3: "\<And>p. p \<noteq> ?a \<Longrightarrow> p \<notin> set (ns i) \<Longrightarrow> p < brk m \<Longrightarrow> cells ?m' p = cells m p"
      using nsi by auto
    have p5: "set (xs' @ [q]) \<subseteq> set (ns i) \<union> {brk m ..< brk ?m'}" using nsi by auto
    have p6: "\<And>c. cells ?m' ?a = Some c \<Longrightarrow> has_entry c = 1" using qa c br by auto
    note upd = wf_update [OF wf i p1 p2 p3 p4 p5 p6]
    from dist dec have qxs: "q \<notin> set xs" by (metis distinct_append distinct.simps(2) disjoint_iff list.set_intros(1))
    have "map (entry_at (cells ?m')) xs = map (entry_at ?cs) xs"
      by (rule entry_at_cong) (use qxs in auto)
    then have "map (entry_at (cells ?m')) (?a # xs' @ [q]) = map (entry_at ?cs) xs @ [(k, v)]"
      using xs' by (simp add: entry_at_def)
    moreover have "takeWhile (\<lambda>x. fst x \<noteq> k) es = map (entry_at ?cs) xs"
      unfolding es dec by (rule takeWhile_keys_prefix [OF xs]) (use c' True in \<open>simp add: key_at_def\<close>)
    moreover have "cells ?m' ?a = Some c" using qa c by simp
    ultimately have bi: "bucket ?m' i (takeWhile (\<lambda>x. fst x \<noteq> k) es @ [(k, v)])"
      unfolding bucket_def using p4 br
      by (intro exI [of _ c] exI [of _ "?a # xs' @ [q]"]) (simp add: slot_def del: chain.simps)
    from upd(1) have "wf ?m'" unfolding wf_def by blast
    with add p1 bi upd(2) show ?thesis by blast
  next
    case False
    with ys c' have ysn: "ys = []" by (auto simp: key_at_Some)
    with dec have dec': "?a # ns i = xs @ [q]" by simp
    let ?n = "brk m"
    let ?m' = "m\<lparr>cells := ?cs(q \<mapsto> c'\<lparr>next' := ?n\<rparr>,
                                 ?n \<mapsto> (uninit e ?n)\<lparr>key := k, value' := v, next' := 0\<rparr>),
                  brk := ?n + 1\<rparr>"
    have add: "hashmap_add e k v m = Some (Inr ?m')"
      using h c br loop c' False by (simp add: hashmap_add_def store_entry_def slot_def Let_def)
    have nfresh: "?n \<notin> set (xs @ [q])" using dec' abrk sub by (metis atLeastLessThan_iff less_irrefl set_ConsD subsetD)
    have n0: "?n \<noteq> 0" using abrk by simp
    from ch dec' have "chain ?cs ?a (xs @ [q])" by simp
    from chain_snoc [OF this c' nfresh n0, where u = "uninit e ?n" and k = k and v = v]
    have "chain (cells ?m') ?a (xs @ [q, ?n])" by (simp del: chain.simps)
    moreover have "xs @ [q, ?n] = ?a # (ns i @ [?n])" using dec' by (metis append_Cons append_assoc append_Nil)
    ultimately have p4: "chain (cells ?m') ?a (?a # (ns i @ [?n]))" by (simp del: chain.simps)
    have p1: "hmap ?m' = hmap m" by simp
    have p2: "brk m \<le> brk ?m'" by simp
    have qin: "q = ?a \<or> q \<in> set (ns i)" using \<open>q \<in> set (?a # ns i)\<close> by simp
    have p3: "\<And>p. p \<noteq> ?a \<Longrightarrow> p \<notin> set (ns i) \<Longrightarrow> p < brk m \<Longrightarrow> cells ?m' p = cells m p"
      using qin by auto
    have p5: "set (ns i @ [?n]) \<subseteq> set (ns i) \<union> {brk m ..< brk ?m'}" by auto
    have p6: "\<And>c. cells ?m' ?a = Some c \<Longrightarrow> has_entry c = 1"
      using c c' br abrk by (cases "q = ?a") auto
    note upd = wf_update [OF wf i p1 p2 p3 p4 p5 p6]
    have keys: "\<forall>x\<in>set (xs @ [q]). key_at ?cs x \<noteq> k"
      using xs False c' by (auto simp: key_at_Some)
    have e1: "\<forall>p\<in>set (xs @ [q]). entry_at (cells ?m') p = entry_at ?cs p"
      using nfresh c' by (auto simp: entry_at_def)
    have e2: "entry_at (cells ?m') ?n = (k, v)" by (simp add: entry_at_def)
    have "map (entry_at (cells ?m')) ((?a # ns i) @ [?n])
            = map (entry_at (cells ?m')) (?a # ns i) @ [entry_at (cells ?m') ?n]"
      by (simp only: map_append list.map)
    also have "map (entry_at (cells ?m')) (?a # ns i) = map (entry_at ?cs) (?a # ns i)"
      unfolding dec' using e1 by (intro map_cong) auto
    finally have "map (entry_at (cells ?m')) (?a # ns i @ [?n]) = map (entry_at ?cs) (?a # ns i) @ [(k, v)]"
      by (simp only: e2 append_Cons)
    moreover have "takeWhile (\<lambda>x. fst x \<noteq> k) es = map (entry_at ?cs) (?a # ns i)"
      unfolding es dec' by (rule takeWhile_keys_all [OF keys])
    moreover obtain c2 where "cells ?m' ?a = Some c2" "has_entry c2 = 1"
      using c c' br abrk by (cases "q = ?a") auto
    ultimately have bi: "bucket ?m' i (takeWhile (\<lambda>x. fst x \<noteq> k) es @ [(k, v)])"
      unfolding bucket_def using p4
      by (intro exI [of _ c2] exI [of _ "?a # ns i @ [?n]"]) (simp add: slot_def del: chain.simps)
    from upd(1) have "wf ?m'" unfolding wf_def by blast
    with add p1 bi upd(2) show ?thesis by blast
  qed
qed

lemma add_step:
  assumes wf: "wf m" and h: "hash e (hmap m) k = Inr i" and b: "bucket m i es"
  shows "\<exists>m'. hashmap_add e k v m = Some (Inr m') \<and> wf m' \<and> hmap m' = hmap m
           \<and> bucket m' i (takeWhile (\<lambda>x. fst x \<noteq> k) es @ [(k, v)])
           \<and> (\<forall>j es'. j < NUM_BUCKETS \<longrightarrow> j \<noteq> i \<longrightarrow> bucket m j es' \<longrightarrow> bucket m' j es')"
proof -
  from wf obtain ns where w: "wf_with m ns" unfolding wf_def by blast
  from b obtain c where c: "cells m (slot m i) = Some c" unfolding bucket_def by blast
  show ?thesis
  proof (cases "has_entry c = 1 \<and> k \<noteq> key c")
    case True
    from add_walk [OF w h b c True] show ?thesis .
  next
    case False
    from add_first [OF w h b c False] show ?thesis .
  qed
qed

section \<open>What hashmap_get returns on a well-formed table\<close>

lemma map_of_entries_none:
  "\<forall>x\<in>set xs. key_at cs x \<noteq> k \<Longrightarrow> map_of (map (entry_at cs) xs) k = None"
  by (induction xs) (auto simp: entry_at_def key_at_def split: option.splits)

lemma map_of_entries_found:
  "\<forall>x\<in>set xs. key_at cs x \<noteq> k \<Longrightarrow> cs q = Some c \<Longrightarrow> key c = k \<Longrightarrow>
   map_of (map (entry_at cs) (xs @ q # ys)) k = Some (value' c)"
  by (induction xs) (auto simp: entry_at_def key_at_def split: option.splits)


text \<open>
  On a well-formed table \<open>get\<close> behaves as a lookup in the pairs of the key's bucket:
  it fails the assertion when the key is not among them, and otherwise formats the debug
  message for the first pair with that key and returns its value.
\<close>

lemma get_abs:
  assumes wf: "wf m" and h: "hash e (hmap m) k = Inr i" and b: "bucket m i es"
  shows "\<exists>j. hashmap_get e k m =
           (case map_of es k of
              None \<Rightarrow> Some (Inl AssertionFailed)
            | Some v \<Rightarrow>
                (case sprintf_info e i j k v of
                   Inl err \<Rightarrow> Some (Inl err)
                 | Inr info \<Rightarrow> Some (Inr (v, m))))"
proof -
  from wf obtain ns where w: "wf_with m ns" unfolding wf_def by blast
  then have nb: "num_buckets (hmap m) = 256" by (simp add: wf_with_def)
  from hash_Inr [OF h nb] have i: "i < NUM_BUCKETS" and k: "k \<noteq> 0" .
  let ?a = "slot m i" and ?cs = "cells m"
  obtain c where c: "?cs ?a = Some c"
    and es: "es = (if has_entry c = 1 then map (entry_at ?cs) (?a # ns i) else [])"
    and a0: "?a \<noteq> 0"
    by (rule bucket_unfold [OF w i b])
  from w i have ch: "chain ?cs ?a (?a # ns i)"
    and empty: "has_entry c \<noteq> 1 \<Longrightarrow> key c = 0 \<and> next' c = 0"
    using c unfolding wf_with_def by blast+
  show ?thesis
  proof (cases "has_entry c = 1")
    case False
    from empty [OF False] have z: "key c = 0" "next' c = 0" by simp_all
    have "get_loop ?cs k ?a 0 = Some (Inr (?a, 0))"
      using c z by (subst get_loop.simps) simp
    with h c z k False es show ?thesis
      by (simp add: hashmap_get_def slot_def)
  next
    case True
    with es have es': "es = map (entry_at ?cs) (?a # ns i)" by simp
    from add_loop_chain [OF ch, of k] obtain xs q ys where
      dec: "?a # ns i = xs @ q # ys" and loop: "add_loop ?cs k ?a = Some (Inr q)"
      and xs: "\<forall>x\<in>set xs. key_at ?cs x \<noteq> k" and ys: "ys \<noteq> [] \<longrightarrow> key_at ?cs q = k"
      by blast
    from get_loop_add_loop [OF ch a0 loop, of 0] obtain j where
      gl: "get_loop ?cs k ?a 0 = Some (Inr (q, j))" by blast
    have "q \<in> set (?a # ns i)" using dec by simp
    from chain_cell [OF ch this] obtain c' where c': "?cs q = Some c'" by blast
    show ?thesis
    proof (cases "key c' = k")
      case kq: True
      have "map_of es k = Some (value' c')"
        unfolding es' dec by (rule map_of_entries_found [OF xs c' kq])
      with h gl c' kq have "hashmap_get e k m =
           (case map_of es k of
              None \<Rightarrow> Some (Inl AssertionFailed)
            | Some v \<Rightarrow>
                (case sprintf_info e i j k v of
                   Inl err \<Rightarrow> Some (Inl err)
                 | Inr info \<Rightarrow> Some (Inr (v, m))))"
        by (simp add: hashmap_get_def slot_def)
      then show ?thesis ..
    next
      case kq: False
      with ys c' have "ys = []" by (auto simp: key_at_def)
      with xs kq c' have "\<forall>x\<in>set (xs @ q # ys). key_at ?cs x \<noteq> k" by (auto simp: key_at_def)
      then have "map_of es k = None" unfolding es' dec by (rule map_of_entries_none)
      with h gl c' kq show ?thesis by (simp add: hashmap_get_def slot_def)
    qed
  qed
qed




section \<open>One insert, seen through lookups\<close>

lemma wf_bucket: "wf m \<Longrightarrow> i < NUM_BUCKETS \<Longrightarrow> \<exists>es. bucket m i es"
  unfolding wf_def using wf_bucket_ex by blast

lemma wf_hash_lt: "wf m \<Longrightarrow> hash e (hmap m) k = Inr i \<Longrightarrow> i < NUM_BUCKETS"
  unfolding wf_def wf_with_def using hash_Inr(1) by blast

lemma map_of_upd_same:
  "map_of (takeWhile (\<lambda>x. fst x \<noteq> k) es @ [(k, v)]) k = Some v"
  by (induction es) auto


text \<open>
  Looking a key up through the pointer it was inserted with finds the value; what is
  left to go wrong is the debug message.
\<close>

lemma add_get_same:
  assumes wf: "wf m" and h: "hash e (hmap m) k = Inr i"
  shows "\<exists>m' j. hashmap_add e k v m = Some (Inr m') \<and> wf m' \<and> hmap m' = hmap m
            \<and> hashmap_get e k m' =
                (case sprintf_info e i j k v of
                   Inl err \<Rightarrow> Some (Inl err)
                 | Inr info \<Rightarrow> Some (Inr (v, m')))"
proof -
  from wf_bucket [OF wf wf_hash_lt [OF wf h]] obtain es where b: "bucket m i es" by blast
  from add_step [OF wf h b, of v] obtain m' where
    a: "hashmap_add e k v m = Some (Inr m')" and w': "wf m'" and hm: "hmap m' = hmap m"
    and b': "bucket m' i (takeWhile (\<lambda>x. fst x \<noteq> k) es @ [(k, v)])"
    by blast
  from h hm have h': "hash e (hmap m') k = Inr i" by simp
  from get_abs [OF w' h' b'] obtain j where
    "hashmap_get e k m' =
       (case sprintf_info e i j k v of Inl err \<Rightarrow> Some (Inl err) | Inr info \<Rightarrow> Some (Inr (v, m')))"
    by (auto simp only: map_of_upd_same option.case)
  with a w' hm show ?thesis by blast
qed



lemma add_wf: "wf m \<Longrightarrow> hashmap_add e k v m = Some (Inr m') \<Longrightarrow> wf m' \<and> hmap m' = hmap m"
proof -
  assume wf: "wf m" and a: "hashmap_add e k v m = Some (Inr m')"
  from a obtain i where hi: "hash e (hmap m) k = Inr i"
    by (cases "hash e (hmap m) k") (auto simp: hashmap_add_def)
  from wf_bucket [OF wf wf_hash_lt [OF wf hi]] obtain es where bi: "bucket m i es" by blast
  from add_step [OF wf hi bi, of v] a show ?thesis by auto
qed

section \<open>Sequences of inserts\<close>


lemma hash_unreadable: "\<not> readable e k \<Longrightarrow> hash e h k = Inl Fault"
  by (auto simp: hash_def read_bytes_def readable_def)

lemma get_unreadable: "\<not> readable e k \<Longrightarrow> hashmap_get e k m = Some (Inl Fault)"
  by (simp add: hashmap_get_def hash_unreadable)



lemma add_all_wf:
  "wf m \<Longrightarrow> add_all e kvs m = Some (Inr m') \<Longrightarrow> wf m' \<and> hmap m' = hmap m"
proof (induction kvs arbitrary: m)
  case Nil
  then show ?case by simp
next
  case (Cons x kvs)
  obtain k1 v1 where x: "x = (k1, v1)" by (cases x)
  from Cons.prems(2) x obtain m1 where a: "hashmap_add e k1 v1 m = Some (Inr m1)"
    and r: "add_all e kvs m1 = Some (Inr m')"
    by (auto simp: and_then_def split: option.splits sum.splits)
  from add_wf [OF Cons.prems(1) a] have w1: "wf m1" and h1: "hmap m1 = hmap m" by simp_all
  from Cons.IH [OF w1 r] h1 show ?case by simp
qed

section \<open>Lookup of a key that was never inserted\<close>





section \<open>Colliding keys\<close>

text \<open>
  Claim C7: two keys of different content that share a bucket, inserted one after the
  other, are both retrievable. In the code: the table is created on the recycled block
  of an earlier table, and \<open>Hashmap\<close> leaves the head of bucket 108 as it finds it,
  flagged and holding the old key pointer 61. Inserting \<open>hostname\<close> (1) appends an
  entry behind that head; inserting \<open>hostnames\<close> (61) matches the stale head, overwrites
  it and resets its successor; \<open>get\<close> of \<open>hostname\<close> then fails the assertion.
\<close>

theorem stale_head_loses_colliding_key:
  "observe fst (and_then (add_all recycled_env [(1, 19), (61, 31)] (Hashmap recycled_env start))
                  (hashmap_get recycled_env 1))
     = Some (Inl AssertionFailed)
   \<and> hash recycled_env (hmap (Hashmap recycled_env start)) 1 = Inr 108
   \<and> hash recycled_env (hmap (Hashmap recycled_env start)) 61 = Inr 108
   \<and> c_string demo_chars 1 \<noteq> c_string demo_chars 61"
  by (simp add: run_defs demo_defs loop_simps)

section \<open>Keys are compared as pointers\<close>

text \<open>
  Claim C1: \<open>get(key)\<close> right after \<open>insert(key, value)\<close> returns the value, the key
  being matched by content. In the code: \<open>hostname\<close> is inserted through the pointer 1
  and looked up through the pointer 10, which holds the same bytes and falls into the
  same bucket; \<open>key != cell->key\<close> compares the two addresses and the assertion fails.
\<close>

theorem get_through_other_pointer_fails:
  "observe fst (and_then (hashmap_add demo_env 1 19 (Hashmap demo_env start))
                  (hashmap_get demo_env 10))
     = Some (Inl AssertionFailed)
   \<and> c_string demo_chars 1 = c_string demo_chars 10"
  by (simp add: run_defs demo_defs loop_simps c_string_def)

text \<open>
  Claim C4: inserting the same key, by content, a second time with another value
  overwrites the first. In the code: \<open>hostname\<close> is inserted through the pointer 1 with
  the value at 19 and then through the pointer 10 with the value at 31; \<open>get\<close> through
  the pointer 1 still returns the first value, 19.
\<close>

theorem second_pointer_does_not_overwrite:
  "observe fst (and_then (add_all demo_env [(1, 19), (10, 31)] (Hashmap demo_env start))
                  (hashmap_get demo_env 1))
     = Some (Inr 19)
   \<and> c_string demo_chars 1 = c_string demo_chars 10"
  by (simp add: run_defs demo_defs loop_simps c_string_def)

text \<open>
  Claim C6: no chain holds two entries whose keys are equal as strings. In the code:
  after the same two inserts the head of bucket 108 (address 109) holds the key 1 and
  its successor (address 257) holds the key 10, and both keys are the string
  \<open>hostname\<close>.
\<close>

theorem chain_holds_equal_strings_twice:
  "observe (\<lambda>m. (cells m 109, cells m 257))
     (add_all demo_env [(1, 19), (10, 31)] (Hashmap demo_env start))
     = Some (Inr (Some \<lparr>key = 1, value' = 19, has_entry = 1, next' = 257\<rparr>,
                  Some \<lparr>key = 10, value' = 31, has_entry = 0, next' = 0\<rparr>))
   \<and> c_string demo_chars 1 = c_string demo_chars 10"
  by (simp add: run_defs demo_defs loop_simps c_string_def)

section \<open>The bucket index\<close>

lemma hash_range:
  "num_buckets h = of_nat NUM_BUCKETS \<Longrightarrow> hash e h k = Inr i \<Longrightarrow> i < NUM_BUCKETS"
  using hash_Inr(1) [of e h k i] by (simp add: NUM_BUCKETS_def)

lemma hash_prefix_only:
  assumes "readable e k" and "readable e k'"
    and "take (sizeof_ptr e) (drop k (chars e)) = take (sizeof_ptr e) (drop k' (chars e))"
  shows "hash e h k = hash e h k'"
  using assms by (simp add: hash_def read_bytes_def readable_def)

text \<open>
  Claim C3: the bucket index is the hash of the key's content bytes modulo 256, so keys
  of equal content share a bucket. In the code the hash is taken over the
  \<open>sizeof(char *)\<close> bytes at the key's address. With FNV-1a and 8-byte pointers:
  \<open>hostnames\<close> (61) goes to bucket 108, the bucket of its first eight bytes, while its
  content hashes to 205; and the two copies of \<open>port\<close> (43 and 51), followed in memory
  by different bytes, go to the buckets 98 and 108.
\<close>

theorem hash_reads_pointer_size_bytes:
  "hash demo_env (hmap (Hashmap demo_env start)) 61 = Inr 108
   \<and> unat (fnv1a (c_string demo_chars 61)) mod NUM_BUCKETS = 205
   \<and> c_string demo_chars 43 = c_string demo_chars 51
   \<and> hash demo_env (hmap (Hashmap demo_env start)) 43 = Inr 98
   \<and> hash demo_env (hmap (Hashmap demo_env start)) 51 = Inr 108"
  by (simp add: run_defs demo_defs c_string_def)

section \<open>Overwriting cuts the chain\<close>

text \<open>
  Claim C9: in every reachable table a chain lists the colliding keys in insertion
  order. In the code \<open>cell->next = NULL\<close> also runs when an existing entry is
  overwritten: after \<open>hostname\<close> (1) and \<open>hostnames\<close> (61) are inserted, bucket 108 is the
  chain 109, 257; inserting \<open>hostname\<close> again resets the successor of 109, the chain no
  longer lists \<open>hostnames\<close>, and \<open>get\<close> of it fails the assertion.
\<close>

theorem overwrite_cuts_chain:
  "observe (\<lambda>m. (cells m 109, cells m 257))
     (add_all demo_env [(1, 19), (61, 31)] (Hashmap demo_env start))
     = Some (Inr (Some \<lparr>key = 1, value' = 19, has_entry = 1, next' = 257\<rparr>,
                  Some \<lparr>key = 61, value' = 31, has_entry = 0, next' = 0\<rparr>))
   \<and> observe (\<lambda>m. cells m 109)
     (add_all demo_env [(1, 19), (61, 31), (1, 19)] (Hashmap demo_env start))
     = Some (Inr (Some \<lparr>key = 1, value' = 19, has_entry = 1, next' = 0\<rparr>))
   \<and> observe fst (and_then (add_all demo_env [(1, 19), (61, 31), (1, 19)] (Hashmap demo_env start))
                  (hashmap_get demo_env 61))
     = Some (Inl AssertionFailed)"
  by (simp add: run_defs demo_defs loop_simps)

end
